theory Spec2Isabelle
  imports Main
begin

section \<open>Strings\<close>

text \<open>
  A JavaScript string is a sequence of UTF-16 code units.  The model covers the strings
  whose code units are all below 256 (Basic Latin and Latin-1 Supplement): one \<^typ>\<open>char\<close>
  is one code unit.  On that range \<open>toLowerCase\<close> maps the letters \<open>A\<close>--\<open>Z\<close>
  (65--90) and \<open>U+00C0\<close>--\<open>U+00DE\<close> without the multiplication sign \<open>U+00D7\<close>
  (192--222 without 215) to the code unit 32 above and leaves every other code unit as it is.
\<close>

definition toLowerCase_char :: "char \<Rightarrow> char" where
  "toLowerCase_char c =
     (let n = (of_char c :: nat)
      in if (65 \<le> n \<and> n \<le> 90) \<or> (192 \<le> n \<and> n \<le> 222 \<and> n \<noteq> 215)
         then char_of (n + 32) else c)"

definition toLowerCase :: "string \<Rightarrow> string" where
  "toLowerCase s = map toLowerCase_char s"

text \<open>
  \<open>trim\<close> removes white space and line terminators from both ends.  Below 256 these are
  the code units 9--13 (tab, line feed, vertical tab, form feed, carriage return), 32 (space)
  and 160 (no-break space).
\<close>

definition is_ws :: "char \<Rightarrow> bool" where
  "is_ws c = (let n = (of_char c :: nat) in (9 \<le> n \<and> n \<le> 13) \<or> n = 32 \<or> n = 160)"

definition trim :: "string \<Rightarrow> string" where
  "trim s = rev (dropWhile is_ws (rev (dropWhile is_ws s)))"

text \<open>\<open>s.startsWith(t)\<close> and \<open>s.includes(t)\<close>: \<open>t\<close> occurs in \<open>s\<close> as a contiguous run.\<close>

fun startsWith :: "string \<Rightarrow> string \<Rightarrow> bool" where
  "startsWith s [] = True"
| "startsWith [] (t # ts) = False"
| "startsWith (c # cs) (t # ts) = (c = t \<and> startsWith cs ts)"

fun includes_str :: "string \<Rightarrow> string \<Rightarrow> bool" where
  "includes_str [] t = (t = [])"
| "includes_str (c # cs) t = (startsWith (c # cs) t \<or> includes_str cs t)"

section \<open>The node model\<close>

text \<open>
  \<open>KernelNode\<close> of \<open>types.ts\<close>.  Nodes are JavaScript objects and are compared with
  \<open>===\<close>, that is by identity, so every node carries the reference \<open>ref\<close> of the object it
  is; two nodes are the same object exactly when their references are equal.  \<open>children\<close> is
  optional: \<open>None\<close> is an absent (\<open>undefined\<close>) property.
\<close>

datatype KernelNode =
  KernelNode (ref: nat) (name: string) (summary: string) (description: string)
    (children: "KernelNode list option")

text \<open>The nodes of a tree in depth-first pre-order.\<close>

fun preorder :: "KernelNode \<Rightarrow> KernelNode list"
  and preorder_list :: "KernelNode list \<Rightarrow> KernelNode list" where
  "preorder (KernelNode r n s d ch) =
     KernelNode r n s d ch # (case ch of None \<Rightarrow> [] | Some cs \<Rightarrow> preorder_list cs)"
| "preorder_list [] = []"
| "preorder_list (c # cs) = preorder c @ preorder_list cs"

text \<open>
  A well-formed tree holds every object once: no node is shared between two parents or
  occurs twice among the children of one.
\<close>

definition well_formed :: "KernelNode \<Rightarrow> bool" where
  "well_formed t = distinct (map ref (preorder t))"

text \<open>
  Object creation takes the next unused reference from a counter.  \<open>next_ref t\<close> is a
  counter value above every reference of the tree \<open>t\<close>.
\<close>

definition next_ref :: "KernelNode \<Rightarrow> nat" where
  "next_ref t = Suc (fold max (map ref (preorder t)) 0)"

section \<open>The tree filter\<close>

text \<open>The test \<open>isMatch\<close> of \<open>filterTree\<close> (lines 25--28), on the lower-cased, trimmed term.\<close>

definition isMatch :: "KernelNode \<Rightarrow> string \<Rightarrow> bool" where
  "isMatch node lowerCaseTerm =
     (includes_str (toLowerCase (name node)) lowerCaseTerm \<or>
      includes_str (toLowerCase (summary node)) lowerCaseTerm \<or>
      includes_str (toLowerCase (description node)) lowerCaseTerm)"

text \<open>
  \<open>filterTree\<close>.  The result \<open>None\<close> is \<open>null\<close>.  The object literal
  \<open>{ ...node, children: filteredChildren }\<close> creates a new object, which takes the next
  reference of the counter; the counter is passed through the calls in the order JavaScript
  evaluates them (the children first, left to right, then the node itself).
  \<open>filterTree_map\<close> is \<open>node.children.map(child => filterTree(child, lowerCaseTerm))\<close>
  and \<open>filter_non_null\<close> the \<open>.filter(child => child !== null)\<close> after it.
\<close>

fun filter_non_null :: "'a option list \<Rightarrow> 'a list" where
  "filter_non_null [] = []"
| "filter_non_null (None # xs) = filter_non_null xs"
| "filter_non_null (Some x # xs) = x # filter_non_null xs"

fun filterTree :: "KernelNode \<Rightarrow> string \<Rightarrow> nat \<Rightarrow> KernelNode option \<times> nat"
  and filterTree_map :: "KernelNode list \<Rightarrow> string \<Rightarrow> nat \<Rightarrow> KernelNode option list \<times> nat" where
  "filterTree (KernelNode r n s d ch) term nxt =
     (let lowerCaseTerm = trim (toLowerCase term)
      in if lowerCaseTerm = [] then (Some (KernelNode r n s d ch), nxt)
         else
           (let (filteredChildren, nxt1) =
                  (case ch of
                     None \<Rightarrow> (None, nxt)
                   | Some cs \<Rightarrow>
                       (let (rs, nxt') = filterTree_map cs lowerCaseTerm nxt
                        in (Some (filter_non_null rs), nxt')))
            in if isMatch (KernelNode r n s d ch) lowerCaseTerm \<or>
                  (case filteredChildren of None \<Rightarrow> False | Some fc \<Rightarrow> length fc > 0)
               then (Some (KernelNode nxt1 n s d filteredChildren), Suc nxt1)
               else (None, nxt1)))"
| "filterTree_map [] term nxt = ([], nxt)"
| "filterTree_map (c # cs) term nxt =
     (let (r, nxt1) = filterTree c term nxt;
          (rs, nxt2) = filterTree_map cs term nxt1
      in (r # rs, nxt2))"

section \<open>The path resolver\<close>

text \<open>
  \<open>findNodePath\<close>.  The inner function \<open>search\<close> pushes to and pops from the array
  \<open>path\<close> of the enclosing call; here it takes the array and returns it with its result.
  \<open>search_children\<close> is the \<open>for\<close> loop over \<open>node.children\<close>.  An empty array is truthy,
  so \<open>if (node.children)\<close> fails only for an absent property.
\<close>

fun search :: "KernelNode \<Rightarrow> KernelNode \<Rightarrow> KernelNode list \<Rightarrow> bool \<times> KernelNode list"
  and search_children :: "KernelNode \<Rightarrow> KernelNode list \<Rightarrow> KernelNode list \<Rightarrow> bool \<times> KernelNode list" where
  "search targetNode (KernelNode r n s d ch) path =
     (let path1 = path @ [KernelNode r n s d ch]
      in if r = ref targetNode then (True, path1)
         else
           (case ch of
              None \<Rightarrow> (False, butlast path1)
            | Some cs \<Rightarrow>
                (case search_children targetNode cs path1 of
                   (True, path2) \<Rightarrow> (True, path2)
                 | (False, path2) \<Rightarrow> (False, butlast path2))))"
| "search_children targetNode [] path = (False, path)"
| "search_children targetNode (c # cs) path =
     (case search targetNode c path of
        (True, path1) \<Rightarrow> (True, path1)
      | (False, path1) \<Rightarrow> search_children targetNode cs path1)"

definition findNodePath :: "KernelNode \<Rightarrow> KernelNode \<Rightarrow> KernelNode list" where
  "findNodePath root targetNode = snd (search targetNode root [])"

section \<open>The highlight engine\<close>

text \<open>
  \<open>HighlightText\<close> builds \<open>new RegExp('(' + escaped + ')', 'gi')\<close>, where \<open>escaped\<close> is
  \<open>highlight\<close> with a backslash before every syntax character of a pattern.  The regular
  expression is therefore one capture group that matches the characters of \<open>highlight\<close>
  literally, ignoring case; the model keeps \<open>highlight\<close> itself as the pattern.

  With the flag \<open>i\<close> (and without \<open>u\<close>) two code units match when their canonical forms
  are equal, the canonical form being the upper case of the code unit when that is a single
  code unit.  Below 256 the letters 97--122 and 224--254 without 247 go to the code unit 32
  below.  The upper-case forms of 181 and 255 lie above 255 and are shared with no other
  code unit below 256, and the upper case of 223 is two code units: the three stand for
  themselves.  Above 255 the two foldings part (\<open>toLowerCase\<close> takes \<open>U+212A\<close> to
  \<open>k\<close>, which the regular expression does not match with \<open>k\<close>); such strings are
  outside the model.
\<close>

definition canonicalize :: "char \<Rightarrow> char" where
  "canonicalize c =
     (let n = (of_char c :: nat)
      in if (97 \<le> n \<and> n \<le> 122) \<or> (224 \<le> n \<and> n \<le> 254 \<and> n \<noteq> 247)
         then char_of (n - 32) else c)"

text \<open>The pattern matches at the start of the string.\<close>

fun match_at :: "string \<Rightarrow> string \<Rightarrow> bool" where
  "match_at [] s = True"
| "match_at (p # ps) [] = False"
| "match_at (p # ps) (c # cs) = (canonicalize p = canonicalize c \<and> match_at ps cs)"

text \<open>The least index at which the pattern matches, the end of the string included.\<close>

fun regex_search :: "string \<Rightarrow> string \<Rightarrow> nat option" where
  "regex_search pat [] = (if match_at pat [] then Some 0 else None)"
| "regex_search pat (c # cs) =
     (if match_at pat (c # cs) then Some 0 else map_option Suc (regex_search pat cs))"

text \<open>
  \<open>regex.test(s)\<close> of a regular expression with the flag \<open>g\<close>: the search starts at
  \<open>lastIndex\<close>; a match sets \<open>lastIndex\<close> to its end, a failure sets it to 0.  The
  result is the answer and the new \<open>lastIndex\<close>.
\<close>

definition regex_test :: "string \<Rightarrow> string \<Rightarrow> nat \<Rightarrow> bool \<times> nat" where
  "regex_test pat s lastIndex =
     (if lastIndex > length s then (False, 0)
      else
        (case regex_search pat (drop lastIndex s) of
           None \<Rightarrow> (False, 0)
         | Some i \<Rightarrow> (True, lastIndex + i + length pat)))"

text \<open>
  \<open>s.split(regex)\<close>.  The method works on a copy of the regular expression, so
  \<open>lastIndex\<close> of \<open>regex\<close> is not touched.  In \<open>regex_split_loop pat acc rest\<close> the
  string \<open>acc\<close> is the text between the end \<open>p\<close> of the last match and the position
  \<open>q\<close> under test, and \<open>rest\<close> is the text from \<open>q\<close> on.  A match at \<open>q\<close> that ends at
  \<open>p\<close> (an empty match right after the last one) is passed over; any other match adds the
  text before it and the text of the capture group to the result.
\<close>

function regex_split_loop :: "string \<Rightarrow> string \<Rightarrow> string \<Rightarrow> string list" where
  "regex_split_loop pat acc [] = [acc]"
| "regex_split_loop pat acc (c # cs) =
     (if match_at pat (c # cs) then
        (if pat = [] \<and> acc = [] then regex_split_loop pat [c] cs
         else acc # take (length pat) (c # cs) #
              regex_split_loop pat [] (drop (length pat) (c # cs)))
      else regex_split_loop pat (acc @ [c]) cs)"
  by pat_completeness auto
termination
  by (relation "measure (\<lambda>(pat, acc, rest). 2 * length rest + (if acc = [] then 0 else 1))")
     (auto simp: neq_Nil_conv)

definition regex_split :: "string \<Rightarrow> string \<Rightarrow> string list" where
  "regex_split pat s =
     (if s = [] then (if match_at pat [] then [] else [[]])
      else regex_split_loop pat [] s)"

text \<open>\<open>s.split('\n')\<close>, for any separator of one character.\<close>

fun split_on :: "char \<Rightarrow> string \<Rightarrow> string list" where
  "split_on sep [] = [[]]"
| "split_on sep (c # cs) =
     (if c = sep then [] # split_on sep cs
      else (case split_on sep cs of [] \<Rightarrow> [[c]] | l # ls \<Rightarrow> (c # l) # ls))"

definition newline :: char where
  "newline = CHR 0x0A"

text \<open>
  A span is a piece of text with its tag: \<open>matched\<close> is rendered in a \<open>strong\<close> element,
  \<open>plain\<close> in a fragment.  \<open>highlightParts\<close> is \<open>parts.map(highlightPart)\<close>; the calls of
  \<open>regex.test\<close> share the one \<open>regex\<close> of the component, so \<open>lastIndex\<close> is passed from
  part to part and, in \<open>highlightLines\<close>, from line to line.
\<close>

datatype span_tag = plain | matched

type_synonym span = "span_tag \<times> string"

fun highlightParts :: "string \<Rightarrow> string list \<Rightarrow> nat \<Rightarrow> span list \<times> nat" where
  "highlightParts pat [] lastIndex = ([], lastIndex)"
| "highlightParts pat (part # parts) lastIndex =
     (let (hit, lastIndex1) = regex_test pat part lastIndex;
          (spans, lastIndex2) = highlightParts pat parts lastIndex1
      in ((if hit then matched else plain, part) # spans, lastIndex2))"

fun highlightLines :: "string \<Rightarrow> string list \<Rightarrow> nat \<Rightarrow> span list list \<times> nat" where
  "highlightLines pat [] lastIndex = ([], lastIndex)"
| "highlightLines pat (line # lines) lastIndex =
     (let (spans, lastIndex1) = highlightParts pat (regex_split pat line) lastIndex;
          (paras, lastIndex2) = highlightLines pat lines lastIndex1
      in (spans # paras, lastIndex2))"

text \<open>
  The property \<open>as\<close> and what \<open>HighlightText\<close> renders: a sequence of paragraphs, one for
  each line, or one inline run of spans.
\<close>

datatype as_mode = as_p | as_span

datatype highlighted = Paragraphs "span list list" | Inline "span list"

definition HighlightText :: "string \<Rightarrow> string \<Rightarrow> as_mode \<Rightarrow> highlighted" where
  "HighlightText text highlight as =
     (if trim highlight = [] then
        (case as of
           as_p \<Rightarrow> Paragraphs (map (\<lambda>line. [(plain, line)]) (split_on newline text))
         | as_span \<Rightarrow> Inline [(plain, text)])
      else
        (case as of
           as_p \<Rightarrow> Paragraphs (fst (highlightLines highlight (split_on newline text) 0))
         | as_span \<Rightarrow> Inline (fst (highlightParts highlight (regex_split highlight text) 0))))"

text \<open>All spans of a rendering, in document order.\<close>

fun spans_of :: "highlighted \<Rightarrow> span list" where
  "spans_of (Paragraphs ps) = concat ps"
| "spans_of (Inline ss) = ss"

section \<open>The expansion state of the tree view\<close>

text \<open>
  \<open>TreeNode\<close> is a React function component with one state variable,
  \<open>isExpanded\<close>.  A mounted component is an instance: the node it was last rendered with,
  its state, and the instances of the children it rendered (none unless it is an expanded
  directory).
\<close>

datatype TreeNodeInst =
  TreeNodeInst (inst_node: KernelNode) (isExpanded: bool) (inst_children: "TreeNodeInst list")

definition isDirectory :: "KernelNode \<Rightarrow> bool" where
  "isDirectory node = (case children node of None \<Rightarrow> False | Some cs \<Rightarrow> length cs > 0)"

text \<open>
  One render of \<open>TreeNode\<close>.  \<open>prev\<close> is the instance that React finds at the same place
  with the same key, if there is one: then \<open>useState\<close> returns the state of that instance
  and ignores its argument; otherwise the component is mounted and the state starts as
  \<open>isRoot || startExpanded\<close>.  The children are rendered only under
  \<open>isExpanded && isDirectory\<close>, with the key \<open>`${child.name}-${index}`\<close>, so the child
  at an index continues the instance that was at that index if the names agree; children are
  never passed \<open>isRoot\<close>, which defaults to \<open>false\<close>.
\<close>

fun TreeNode :: "bool \<Rightarrow> bool \<Rightarrow> TreeNodeInst option \<Rightarrow> KernelNode \<Rightarrow> TreeNodeInst"
  and TreeNode_children :: "bool \<Rightarrow> TreeNodeInst list \<Rightarrow> KernelNode list \<Rightarrow> TreeNodeInst list" where
  "TreeNode isRoot startExpanded prev (KernelNode r n s d ch) =
     (let node = KernelNode r n s d ch;
          expanded = (case prev of None \<Rightarrow> isRoot \<or> startExpanded | Some p \<Rightarrow> isExpanded p)
      in TreeNodeInst node expanded
           (if expanded \<and> isDirectory node then
              (case ch of
                 None \<Rightarrow> []
               | Some cs \<Rightarrow>
                   TreeNode_children startExpanded
                     (case prev of None \<Rightarrow> [] | Some p \<Rightarrow> inst_children p) cs)
            else []))"
| "TreeNode_children startExpanded prevs [] = []"
| "TreeNode_children startExpanded prevs (c # cs) =
     TreeNode False startExpanded
       (case prevs of
          [] \<Rightarrow> None
        | p # ps \<Rightarrow> if name (inst_node p) = name c then Some p else None) c
     # TreeNode_children startExpanded (tl prevs) cs"

text \<open>
  An element of the tree view is addressed by the child indices that lead to it from the
  root.  \<open>setIsExpanded(prev => !prev)\<close> of the instance at a position:
\<close>

fun inst_at :: "nat list \<Rightarrow> TreeNodeInst \<Rightarrow> TreeNodeInst option" where
  "inst_at [] t = Some t"
| "inst_at (i # pos) t =
     (if i < length (inst_children t) then inst_at pos (inst_children t ! i) else None)"

fun toggle_at :: "nat list \<Rightarrow> TreeNodeInst \<Rightarrow> TreeNodeInst" where
  "toggle_at [] (TreeNodeInst node e cs) = TreeNodeInst node (\<not> e) cs"
| "toggle_at (i # pos) (TreeNodeInst node e cs) =
     TreeNodeInst node e (if i < length cs then cs[i := toggle_at pos (cs ! i)] else cs)"

text \<open>Every instance of a view, and the nodes the view displays.\<close>

fun instances :: "TreeNodeInst \<Rightarrow> TreeNodeInst list" where
  "instances (TreeNodeInst node e cs) = TreeNodeInst node e cs # concat (map instances cs)"

definition displayed :: "TreeNodeInst \<Rightarrow> KernelNode list" where
  "displayed t = map inst_node (instances t)"

section \<open>The application\<close>

text \<open>
  What the left column of \<open>App\<close> shows: the \<open>KernelVisualizer\<close> under its key with the
  instance of the root \<open>TreeNode\<close>, or the message that nothing was found for the term.
\<close>

datatype screen = Visualizer nat TreeNodeInst | NoResults string

text \<open>
  The state of \<open>App\<close>: its four state variables, the value held by \<open>useMemo\<close>, the
  counter of object references, and what is mounted.
\<close>

record AppState =
  searchTerm :: string
  visualizerKey :: nat
  selectedNode :: "KernelNode option"
  selectedNodePath :: "KernelNode list"
  filteredData :: "KernelNode option"
  next_object :: nat
  shown :: screen

text \<open>The three handlers of \<open>App\<close>.  \<open>kernelData\<close> is the tree imported from the data module.\<close>

definition handleSearchChange :: "string \<Rightarrow> AppState \<Rightarrow> AppState" where
  "handleSearchChange v st = st\<lparr>searchTerm := v, selectedNode := None, selectedNodePath := []\<rparr>"

definition handleNodeSelect :: "KernelNode \<Rightarrow> KernelNode \<Rightarrow> AppState \<Rightarrow> AppState" where
  "handleNodeSelect kernelData node st =
     st\<lparr>selectedNode := Some node, selectedNodePath := findNodePath kernelData node\<rparr>"

definition handleCollapseAll :: "AppState \<Rightarrow> AppState" where
  "handleCollapseAll st =
     st\<lparr>searchTerm := [], selectedNode := None, selectedNodePath := [],
        visualizerKey := visualizerKey st + 1\<rparr>"

text \<open>
  One render of \<open>App\<close> after the handlers of an event have run.  \<open>useMemo\<close> computes
  \<open>filteredData\<close> again only when \<open>searchTerm\<close> differs from the one of the last render
  (\<open>prevTerm\<close>).  The visualizer gets \<open>searchActive = searchTerm.length > 0\<close>, which it
  hands to the root \<open>TreeNode\<close> as \<open>startExpanded\<close> together with \<open>isRoot = true\<close>; its
  instances continue only if a visualizer with the same key was mounted before.
\<close>

definition App_render :: "KernelNode \<Rightarrow> string \<Rightarrow> AppState \<Rightarrow> AppState" where
  "App_render kernelData prevTerm st =
     (let (fd, nxt) =
            (if searchTerm st = prevTerm then (filteredData st, next_object st)
             else if searchTerm st = [] then (Some kernelData, next_object st)
             else filterTree kernelData (searchTerm st) (next_object st));
          prev = (case shown st of
                    Visualizer k inst \<Rightarrow> if k = visualizerKey st then Some inst else None
                  | NoResults _ \<Rightarrow> None)
      in st\<lparr>filteredData := fd, next_object := nxt,
            shown := (case fd of
                        None \<Rightarrow> NoResults (searchTerm st)
                      | Some data \<Rightarrow>
                          Visualizer (visualizerKey st)
                            (TreeNode True (length (searchTerm st) > 0) prev data))\<rparr>)"

text \<open>
  The events of the page: typing in the search box, \<open>handleInteraction\<close> on the element of
  the tree view at a position (it selects the node and, for a directory, flips
  \<open>isExpanded\<close>), a click on the breadcrumb button at an index, and the button
  ``Collapse All''.  An event on an element that is not on the page changes nothing.
\<close>

datatype event =
  SearchChange string
| NodeInteraction "nat list"
| BreadcrumbClick nat
| CollapseAll

definition handleInteraction :: "KernelNode \<Rightarrow> nat list \<Rightarrow> AppState \<Rightarrow> AppState" where
  "handleInteraction kernelData pos st =
     (case shown st of
        NoResults _ \<Rightarrow> st
      | Visualizer k root \<Rightarrow>
          (case inst_at pos root of
             None \<Rightarrow> st
           | Some inst \<Rightarrow>
               App_render kernelData (searchTerm st)
                 ((handleNodeSelect kernelData (inst_node inst) st)
                    \<lparr>shown := Visualizer k
                       (if isDirectory (inst_node inst) then toggle_at pos root else root)\<rparr>)))"

fun App_step :: "KernelNode \<Rightarrow> AppState \<Rightarrow> event \<Rightarrow> AppState" where
  "App_step kernelData st (SearchChange v) =
     App_render kernelData (searchTerm st) (handleSearchChange v st)"
| "App_step kernelData st (NodeInteraction pos) = handleInteraction kernelData pos st"
| "App_step kernelData st (BreadcrumbClick i) =
     (if selectedNode st \<noteq> None \<and> i < length (selectedNodePath st)
      then App_render kernelData (searchTerm st)
             (handleNodeSelect kernelData (selectedNodePath st ! i) st)
      else st)"
| "App_step kernelData st CollapseAll =
     App_render kernelData (searchTerm st) (handleCollapseAll st)"

text \<open>The first render, and the state after a sequence of events.\<close>

definition App_init :: "KernelNode \<Rightarrow> AppState" where
  "App_init kernelData =
     \<lparr>searchTerm = [], visualizerKey = 0, selectedNode = None, selectedNodePath = [],
      filteredData = Some kernelData, next_object = next_ref kernelData,
      shown = Visualizer 0 (TreeNode True False None kernelData)\<rparr>"

definition App_run :: "KernelNode \<Rightarrow> event list \<Rightarrow> AppState" where
  "App_run kernelData evs = foldl (App_step kernelData) (App_init kernelData) evs"

section \<open>Notions of the specification\<close>

text \<open>
  The self-match of the specification: the name, the summary or the description of the node
  contains the term, ignoring case.
\<close>

definition ci_contains :: "string \<Rightarrow> string \<Rightarrow> bool" where
  "ci_contains text s = includes_str (toLowerCase text) (toLowerCase s)"

definition self_matches :: "KernelNode \<Rightarrow> string \<Rightarrow> bool" where
  "self_matches node s =
     (ci_contains (name node) s \<or> ci_contains (summary node) s \<or>
      ci_contains (description node) s)"

text \<open>
  Survival as the specification defines it: the node matches by itself, or one of its
  children survives.
\<close>

fun survives :: "KernelNode \<Rightarrow> string \<Rightarrow> bool"
  and survives_any :: "KernelNode list \<Rightarrow> string \<Rightarrow> bool" where
  "survives (KernelNode r n s d ch) t =
     (self_matches (KernelNode r n s d ch) t \<or>
      (case ch of None \<Rightarrow> False | Some cs \<Rightarrow> survives_any cs t))"
| "survives_any [] t = False"
| "survives_any (c # cs) t = (survives c t \<or> survives_any cs t)"

text \<open>
  \<open>present_as t node node'\<close>: the node \<open>node'\<close> of a filtered tree stands for the node
  \<open>node\<close> of the tree that was filtered.  It has the same three texts, and its children
  stand, one for one and in the same order, for the surviving children of \<open>node\<close>.
\<close>

fun present_as :: "string \<Rightarrow> KernelNode \<Rightarrow> KernelNode \<Rightarrow> bool"
  and present_list :: "string \<Rightarrow> KernelNode list \<Rightarrow> KernelNode list \<Rightarrow> bool" where
  "present_as t (KernelNode r n s d ch) node' =
     (name node' = n \<and> summary node' = s \<and> description node' = d \<and>
      (case ch of
         None \<Rightarrow> children node' = None
       | Some cs \<Rightarrow>
           (case children node' of
              None \<Rightarrow> False
            | Some cs' \<Rightarrow> present_list t cs cs')))"
| "present_list t [] cs' = (cs' = [])"
| "present_list t (c # cs) cs' =
     (if survives c t then
        (case cs' of [] \<Rightarrow> False | c' # rest \<Rightarrow> present_as t c c' \<and> present_list t cs rest)
      else present_list t cs cs')"

text \<open>The parent relation, and the path to the first node in pre-order with a reference.\<close>

definition is_parent :: "KernelNode \<Rightarrow> KernelNode \<Rightarrow> bool" where
  "is_parent p c = (case children p of None \<Rightarrow> False | Some cs \<Rightarrow> c \<in> set cs)"

fun path_to :: "nat \<Rightarrow> KernelNode \<Rightarrow> KernelNode list option"
  and path_to_list :: "nat \<Rightarrow> KernelNode list \<Rightarrow> KernelNode list option" where
  "path_to i (KernelNode r n s d ch) =
     (if r = i then Some [KernelNode r n s d ch]
      else (case ch of
              None \<Rightarrow> None
            | Some cs \<Rightarrow> map_option ((#) (KernelNode r n s d ch)) (path_to_list i cs)))"
| "path_to_list i [] = None"
| "path_to_list i (c # cs) =
     (case path_to i c of Some p \<Rightarrow> Some p | None \<Rightarrow> path_to_list i cs)"

text \<open>
  The text a rendering stands for: the spans of an inline run one after the other; for
  paragraphs, the text of each paragraph, with a line break between one paragraph and the
  next.
\<close>

fun join_lines :: "string list \<Rightarrow> string" where
  "join_lines [] = []"
| "join_lines [l] = l"
| "join_lines (l # l' # ls) = l @ newline # join_lines (l' # ls)"

fun rejoin :: "highlighted \<Rightarrow> string" where
  "rejoin (Paragraphs ps) = join_lines (map (\<lambda>p. concat (map snd p)) ps)"
| "rejoin (Inline ss) = concat (map snd ss)"

text \<open>The runs of spans of a rendering: the paragraphs, or the one inline run.\<close>

fun runs_of :: "highlighted \<Rightarrow> span list list" where
  "runs_of (Paragraphs ps) = ps"
| "runs_of (Inline ss) = [ss]"

text \<open>A run alternates between the two tags, starting with the given one.\<close>

fun other_tag :: "span_tag \<Rightarrow> span_tag" where
  "other_tag plain = matched"
| "other_tag matched = plain"

fun alternates :: "span_tag \<Rightarrow> span list \<Rightarrow> bool" where
  "alternates t [] = True"
| "alternates t (sp # sps) = (fst sp = t \<and> alternates (other_tag t) sps)"

fun tag_parts :: "span_tag \<Rightarrow> string list \<Rightarrow> span list" where
  "tag_parts t [] = []"
| "tag_parts t (p # ps) = (t, p) # tag_parts (other_tag t) ps"

text \<open>
  The pattern occurs nowhere in a string; and the form of the result of \<open>split\<close>: pieces
  without an occurrence of the pattern, separated by occurrences of it.
\<close>

definition no_occurrence :: "string \<Rightarrow> string \<Rightarrow> bool" where
  "no_occurrence pat s = (regex_search pat s = None)"

fun split_shape :: "string \<Rightarrow> string list \<Rightarrow> bool" where
  "split_shape pat [] = False"
| "split_shape pat [p] = no_occurrence pat p"
| "split_shape pat (p # m # rest) =
     (no_occurrence pat p \<and> match_at pat m \<and> length m = length pat \<and> split_shape pat rest)"

text \<open>The tree of the scenario of the specification, with the references 0 to 3.\<close>

definition scenario_B :: KernelNode where
  "scenario_B = KernelNode 2 ''sched.c'' ''scheduler'' ''CPU scheduler'' None"

definition scenario_A :: KernelNode where
  "scenario_A = KernelNode 1 ''kernel'' ''core'' [] (Some [scenario_B])"

definition scenario_C :: KernelNode where
  "scenario_C = KernelNode 3 ''mm'' ''memory'' [] (Some [])"

definition scenario_root :: KernelNode where
  "scenario_root = KernelNode 0 ''linux'' [] [] (Some [scenario_A, scenario_C])"

section \<open>Properties of the strings\<close>

lemma of_char_toLowerCase_char:
  "(of_char (toLowerCase_char c) :: nat) =
     (let n = of_char c
      in if (65 \<le> n \<and> n \<le> 90) \<or> (192 \<le> n \<and> n \<le> 222 \<and> n \<noteq> 215) then n + 32 else n)"
  by (simp add: toLowerCase_char_def Let_def of_char_of)

lemma toLowerCase_char_idem [simp]:
  "toLowerCase_char (toLowerCase_char c) = toLowerCase_char c"
  apply (rule of_char_eqI[where ?'a=nat])
  apply (simp only: of_char_toLowerCase_char[of "toLowerCase_char c"])
  apply (simp add: of_char_toLowerCase_char Let_def)
  done

lemma is_ws_toLowerCase_char [simp]: "is_ws (toLowerCase_char c) = is_ws c"
  unfolding is_ws_def of_char_toLowerCase_char by (auto simp: Let_def)

lemma toLowerCase_idem [simp]: "toLowerCase (toLowerCase s) = toLowerCase s"
  by (simp add: toLowerCase_def)

lemma dropWhile_ws_toLowerCase:
  "dropWhile is_ws (toLowerCase s) = toLowerCase (dropWhile is_ws s)"
  by (induction s) (auto simp: toLowerCase_def)

lemma rev_toLowerCase: "rev (toLowerCase s) = toLowerCase (rev s)"
  by (simp add: toLowerCase_def rev_map)

lemma trim_toLowerCase: "trim (toLowerCase s) = toLowerCase (trim s)"
  by (simp add: trim_def dropWhile_ws_toLowerCase rev_toLowerCase)

lemma trim_Nil [simp]: "trim [] = []"
  by (simp add: trim_def)

lemma trim_no_ws_ends:
  assumes ne: "trim s \<noteq> []"
  shows "\<not> is_ws (hd (trim s)) \<and> \<not> is_ws (last (trim s))"
proof -
  define u where "u = dropWhile is_ws s"
  define v where "v = dropWhile is_ws (rev u)"
  have t: "trim s = rev v" by (simp add: trim_def u_def v_def)
  with ne have vne: "v \<noteq> []" by simp
  then have une: "u \<noteq> []" by (auto simp: v_def)
  have hv: "\<not> is_ws (hd v)" using vne unfolding v_def by (rule hd_dropWhile)
  have hu: "\<not> is_ws (hd u)" using une unfolding u_def by (rule hd_dropWhile)
  have "rev u = takeWhile is_ws (rev u) @ v" by (simp add: v_def)
  then have "last (rev u) = last v" using vne by (metis last_appendR)
  then have "last v = hd u" using une by (simp add: last_rev)
  with hu hv show ?thesis using vne by (simp add: t hd_rev last_rev)
qed

lemma trim_fixed:
  assumes "s = [] \<or> (\<not> is_ws (hd s) \<and> \<not> is_ws (last s))"
  shows "trim s = s"
proof (cases "s = []")
  case True
  then show ?thesis by simp
next
  case False
  with assms have h: "\<not> is_ws (hd s)" and l: "\<not> is_ws (last s)" by auto
  have a: "dropWhile is_ws s = s" using False h by (cases s) auto
  have b: "dropWhile is_ws (rev s) = rev s"
    using False l by (cases "rev s") (auto simp: last_rev[symmetric] hd_rev)
  show ?thesis by (simp add: trim_def a b)
qed

lemma trim_idem [simp]: "trim (trim s) = trim s"
  by (rule trim_fixed) (use trim_no_ws_ends in blast)

lemma normalise_idem:
  "trim (toLowerCase (trim (toLowerCase s))) = trim (toLowerCase s)"
  by (simp add: trim_toLowerCase)

lemma trim_toLowerCase_Nil: "trim (toLowerCase s) = [] \<longleftrightarrow> trim s = []"
  unfolding trim_toLowerCase by (simp add: toLowerCase_def)

section \<open>Properties of the tree filter\<close>

lemma isMatch_conv: "isMatch node (trim (toLowerCase s)) = self_matches node (trim s)"
  by (simp add: isMatch_def self_matches_def ci_contains_def trim_toLowerCase)

lemma filterTree_empty_term:
  "trim (toLowerCase trm) = [] \<Longrightarrow> filterTree node trm nxt = (Some node, nxt)"
  by (cases node) simp

text \<open>
  The recursive calls get the normalised term, which normalises to itself; so the statement
  is about every term \<open>trm\<close> with the normal form of a fixed term \<open>trm0\<close>.
\<close>

lemma filterTree_characterisation:
  assumes ne: "trim (toLowerCase trm0) \<noteq> []"
  shows "trim (toLowerCase trm) = trim (toLowerCase trm0) \<Longrightarrow>
          (case fst (filterTree node trm nxt) of
             None \<Rightarrow> \<not> survives node (trim trm0)
           | Some node' \<Rightarrow> survives node (trim trm0) \<and> present_as (trim trm0) node node')"
    and "trim (toLowerCase trm) = trim (toLowerCase trm0) \<Longrightarrow>
          present_list (trim trm0) cs (filter_non_null (fst (filterTree_map cs trm nxt))) \<and>
          (filter_non_null (fst (filterTree_map cs trm nxt)) \<noteq> [] \<longleftrightarrow>
             survives_any cs (trim trm0))"
proof (induction node trm nxt and cs trm nxt rule: filterTree_filterTree_map.induct)
  case (1 r n s d ch trm nxt)
  let ?t = "trim (toLowerCase trm0)"
  have eq: "trim (toLowerCase trm) = ?t" by fact
  show ?case
  proof (cases ch)
    case None
    then show ?thesis using eq ne
      by (simp add: isMatch_conv)
  next
    case (Some cs)
    have "trim (toLowerCase ?t) = ?t" by (rule normalise_idem)
    with "1.IH"[OF refl _ Some] eq ne
    have IH: "present_list (trim trm0) cs (filter_non_null (fst (filterTree_map cs ?t nxt)))"
      "filter_non_null (fst (filterTree_map cs ?t nxt)) \<noteq> [] \<longleftrightarrow> survives_any cs (trim trm0)"
      by auto
    show ?thesis using eq ne IH Some
      by (auto simp: isMatch_conv split: prod.splits)
  qed
next
  case (2 trm nxt)
  then show ?case by simp
next
  case (3 c cs trm nxt)
  obtain r nxt1 where a: "filterTree c trm nxt = (r, nxt1)" by force
  obtain rs nxt2 where b: "filterTree_map cs trm nxt1 = (rs, nxt2)" by force
  from "3.IH"(1)[OF "3.prems"] a
  have h1: "case r of None \<Rightarrow> \<not> survives c (trim trm0)
            | Some node' \<Rightarrow> survives c (trim trm0) \<and> present_as (trim trm0) c node'" by simp
  from "3.IH"(2)[OF refl a[symmetric] "3.prems"] b
  have h2: "present_list (trim trm0) cs (filter_non_null rs)"
    "filter_non_null rs \<noteq> [] \<longleftrightarrow> survives_any cs (trim trm0)" by auto
  show ?case using h1 h2 a b by (cases r) auto
qed

text \<open>
  C1, as amended.  For a term whose trimmed form is not empty, \<open>filterTree\<close> returns
  \<open>null\<close> exactly when the root does not survive, survival being judged on the trimmed
  term: a node survives if its name, summary or description contains the trimmed term,
  ignoring case, or one of its children survives.  Otherwise the result stands for the
  root: every node of it has the texts of the node it stands for, and its children stand
  one for one, in the order of the tree, for the children that survive.
\<close>

theorem filterTree_survivors:
  assumes "trim s \<noteq> []"
  shows "case fst (filterTree T s nxt) of
           None \<Rightarrow> \<not> survives T (trim s)
         | Some T' \<Rightarrow> survives T (trim s) \<and> present_as (trim s) T T'"
  using assms filterTree_characterisation(1)[of s s T nxt]
  by (simp add: trim_toLowerCase_Nil)

theorem filterTree_survivors_witness:
  "trim '' Sched '' \<noteq> [] \<and>
   (case fst (filterTree scenario_root '' Sched '' 4) of
      None \<Rightarrow> \<not> survives scenario_root (trim '' Sched '')
    | Some T' \<Rightarrow> survives scenario_root (trim '' Sched '') \<and>
        present_as (trim '' Sched '') scenario_root T')"
proof -
  have h: "trim '' Sched '' \<noteq> []" by code_simp
  show ?thesis by (rule conjI[OF h filterTree_survivors[OF h]])
qed

text \<open>
  C1 as it is stated judges survival on the term itself.  The term \<open>sched\<close> followed by
  a space occurs in no text of the scenario, so no node survives it; \<open>filterTree\<close> trims
  the term and keeps the root.
\<close>

theorem filterTree_untrimmed_counterexample:
  "\<not> (fst (filterTree scenario_root ''sched '' 4) \<noteq> None \<longleftrightarrow>
      survives scenario_root ''sched '')"
  by code_simp

text \<open>
  C8.  For a term whose trimmed form is empty, \<open>filterTree\<close> returns the tree it was
  given: the same object with the same content, and no object is created.
\<close>

theorem filterTree_identity:
  assumes "trim trm = []"
  shows "filterTree T trm nxt = (Some T, nxt)"
  using assms by (simp add: filterTree_empty_term trim_toLowerCase_Nil)

theorem filterTree_identity_witness:
  "trim ''  '' = [] \<and> filterTree scenario_root ''  '' 4 = (Some scenario_root, 4)"
proof -
  have h: "trim ''  '' = []" by code_simp
  show ?thesis by (rule conjI[OF h filterTree_identity[OF h]])
qed

section \<open>Properties of the path resolver\<close>

text \<open>\<open>search\<close> leaves the array as it found it, or leaves the path to the target on it.\<close>

lemma search_eq:
  "search t node path =
     (case path_to (ref t) node of Some p \<Rightarrow> (True, path @ p) | None \<Rightarrow> (False, path))"
  "search_children t cs path =
     (case path_to_list (ref t) cs of Some p \<Rightarrow> (True, path @ p) | None \<Rightarrow> (False, path))"
proof (induction t node path and t cs path rule: search_search_children.induct)
  case (1 t r n s d ch path)
  show ?case
  proof (cases "r = ref t")
    case True
    then show ?thesis by simp
  next
    case False
    show ?thesis
    proof (cases ch)
      case None
      then show ?thesis using False by simp
    next
      case (Some cs)
      from "1.IH"[OF refl False Some] show ?thesis using False Some
        by (auto split: option.splits)
    qed
  qed
next
  case (2 t path)
  then show ?case by simp
next
  case (3 t c cs path)
  show ?case
  proof (cases "path_to (ref t) c")
    case None
    with "3.IH"(1) have s: "search t c path = (False, path)" by simp
    from "3.IH"(2)[OF s[symmetric] refl] show ?thesis using s None by simp
  next
    case (Some p)
    with "3.IH"(1) show ?thesis by simp
  qed
qed

lemma findNodePath_eq:
  "findNodePath root t = (case path_to (ref t) root of Some p \<Rightarrow> p | None \<Rightarrow> [])"
  by (simp add: findNodePath_def search_eq split: option.splits)

lemma path_to_props:
  "path_to i node = Some p \<Longrightarrow>
     p \<noteq> [] \<and> hd p = node \<and> ref (last p) = i \<and> successively is_parent p \<and>
     set p \<subseteq> set (preorder node)"
  "path_to_list i cs = Some p \<Longrightarrow>
     p \<noteq> [] \<and> hd p \<in> set cs \<and> ref (last p) = i \<and> successively is_parent p \<and>
     set p \<subseteq> set (preorder_list cs)"
proof (induction i node and i cs arbitrary: p and p rule: path_to_path_to_list.induct)
  case (1 i r n s d ch)
  show ?case
  proof (cases "r = i")
    case True
    with "1.prems" show ?thesis by auto
  next
    case False
    with "1.prems" obtain cs q where ch: "ch = Some cs" and q: "path_to_list i cs = Some q"
      and p: "p = KernelNode r n s d ch # q"
      by (auto split: option.splits)
    from "1.IH"[OF False ch q] have
      "q \<noteq> []" "hd q \<in> set cs" "ref (last q) = i" "successively is_parent q"
      "set q \<subseteq> set (preorder_list cs)" by auto
    then show ?thesis using p ch
      by (cases q) (auto simp: is_parent_def)
  qed
next
  case (2 i)
  then show ?case by simp
next
  case (3 i c cs)
  show ?case
  proof (cases "path_to i c")
    case None
    with "3.prems" have "path_to_list i cs = Some p" by simp
    from "3.IH"(2)[OF None this] show ?thesis by auto
  next
    case (Some q)
    with "3.prems" have "q = p" by simp
    with "3.IH"(1)[of p] Some show ?thesis by auto
  qed
qed

lemma find_append_list:
  "find P (xs @ ys) = (case find P xs of None \<Rightarrow> find P ys | Some x \<Rightarrow> Some x)"
  by (induction xs) auto

lemma find_path_to:
  "find (\<lambda>x. ref x = i) (preorder node) = map_option last (path_to i node)"
  "find (\<lambda>x. ref x = i) (preorder_list cs) = map_option last (path_to_list i cs)"
proof (induction i node and i cs rule: path_to_path_to_list.induct)
  case (1 i r n s d ch)
  show ?case
  proof (cases "r = i")
    case True
    then show ?thesis by simp
  next
    case False
    show ?thesis
    proof (cases ch)
      case None
      then show ?thesis using False by simp
    next
      case (Some cs)
      from "1.IH"[OF False Some] show ?thesis using False Some
        by (cases "path_to_list i cs") (auto dest: path_to_props(2))
    qed
  qed
next
  case (2 i)
  then show ?case by simp
next
  case (3 i c cs)
  then show ?case
    by (cases "path_to i c") (auto simp: find_append_list)
qed

lemma find_distinct:
  "distinct (map f xs) \<Longrightarrow> x \<in> set xs \<Longrightarrow> find (\<lambda>y. f y = f x) xs = Some x"
  by (induction xs) (auto simp: rev_image_eqI)

text \<open>
  C7.  In a well-formed tree with root \<open>R\<close>, for a node \<open>N\<close> of the tree,
  \<open>findNodePath\<close> returns a path that starts at \<open>R\<close>, ends at \<open>N\<close> and goes from each
  node to one of its children; its end is the first node in depth-first pre-order that is
  identical to \<open>N\<close>.
\<close>

theorem findNodePath_valid:
  assumes "well_formed R" and "N \<in> set (preorder R)"
  shows "findNodePath R N \<noteq> [] \<and> hd (findNodePath R N) = R \<and> last (findNodePath R N) = N \<and>
         successively is_parent (findNodePath R N) \<and>
         find (\<lambda>x. ref x = ref N) (preorder R) = Some (last (findNodePath R N))"
proof -
  from assms have f: "find (\<lambda>x. ref x = ref N) (preorder R) = Some N"
    unfolding well_formed_def by (rule find_distinct)
  then obtain p where p: "path_to (ref N) R = Some p" and l: "last p = N"
    by (auto simp: find_path_to)
  from path_to_props(1)[OF p] p l f show ?thesis
    by (simp add: findNodePath_eq)
qed

theorem findNodePath_valid_witness:
  "well_formed scenario_root \<and> scenario_B \<in> set (preorder scenario_root) \<and>
   (findNodePath scenario_root scenario_B \<noteq> [] \<and>
    hd (findNodePath scenario_root scenario_B) = scenario_root \<and>
    last (findNodePath scenario_root scenario_B) = scenario_B \<and>
    successively is_parent (findNodePath scenario_root scenario_B) \<and>
    find (\<lambda>x. ref x = ref scenario_B) (preorder scenario_root) =
      Some (last (findNodePath scenario_root scenario_B)))"
proof -
  have h1: "well_formed scenario_root" by code_simp
  have h2: "scenario_B \<in> set (preorder scenario_root)" by code_simp
  show ?thesis by (intro conjI h1 h2) (use findNodePath_valid[OF h1 h2] in blast)+
qed

section \<open>Filtered trees and the path resolver\<close>

text \<open>The references of a filtered tree come from the counter.\<close>

lemma filterTree_fresh:
  "trim (toLowerCase trm) \<noteq> [] \<Longrightarrow> filterTree node trm nxt = (res, nxt') \<Longrightarrow>
     nxt \<le> nxt' \<and> (\<forall>T'. res = Some T' \<longrightarrow> (\<forall>x \<in> set (preorder T'). nxt \<le> ref x \<and> ref x < nxt'))"
  "trim (toLowerCase trm) \<noteq> [] \<Longrightarrow> filterTree_map cs trm nxt = (rs, nxt') \<Longrightarrow>
     nxt \<le> nxt' \<and> (\<forall>x \<in> set (preorder_list (filter_non_null rs)). nxt \<le> ref x \<and> ref x < nxt')"
proof (induction node trm nxt and cs trm nxt arbitrary: res nxt' and rs nxt'
       rule: filterTree_filterTree_map.induct)
  case (1 r n s d ch trm nxt)
  let ?t = "trim (toLowerCase trm)"
  have ne: "?t \<noteq> []" by fact
  have nn: "trim (toLowerCase ?t) \<noteq> []" using ne by (simp add: normalise_idem)
  show ?case
  proof (cases ch)
    case None
    with "1.prems" show ?thesis by (auto split: if_splits)
  next
    case (Some cs)
    obtain rs n1 where m: "filterTree_map cs ?t nxt = (rs, n1)" by force
    from "1.IH"[OF refl ne Some nn m]
    have IH: "nxt \<le> n1" "\<forall>x \<in> set (preorder_list (filter_non_null rs)). nxt \<le> ref x \<and> ref x < n1"
      by auto
    from "1.prems" Some m IH show ?thesis
      by (fastforce split: if_splits)
  qed
next
  case (2 trm nxt)
  then show ?case by simp
next
  case (3 c cs trm nxt)
  obtain r n1 where a: "filterTree c trm nxt = (r, n1)" by force
  obtain rs' n2 where b: "filterTree_map cs trm n1 = (rs', n2)" by force
  from "3.IH"(1)[OF "3.prems"(1) a]
  have h1: "nxt \<le> n1" "\<forall>T'. r = Some T' \<longrightarrow> (\<forall>x \<in> set (preorder T'). nxt \<le> ref x \<and> ref x < n1)"
    by auto
  from "3.IH"(2)[OF refl a[symmetric] "3.prems"(1) b]
  have h2: "n1 \<le> n2" "\<forall>x \<in> set (preorder_list (filter_non_null rs')). n1 \<le> ref x \<and> ref x < n2"
    by auto
  from "3.prems"(2) a b have e: "rs = r # rs'" "nxt' = n2" by auto
  show ?case using h1 h2 e by (cases r) fastforce+
qed

lemma fold_max_ge: "x \<in> set xs \<Longrightarrow> (x::nat) \<le> fold max xs m"
proof -
  assume "x \<in> set xs"
  then have "x \<le> Max (set (m # xs))" by (intro Max_ge) auto
  then show ?thesis by (simp only: Max.set_eq_fold)
qed

lemma ref_less_next_ref: "x \<in> set (preorder T) \<Longrightarrow> ref x < next_ref T"
  unfolding next_ref_def using fold_max_ge[of "ref x" "map ref (preorder T)" 0] by auto

lemma path_to_None:
  assumes "\<forall>x \<in> set (preorder node). ref x \<noteq> i"
  shows "path_to i node = None"
proof -
  from assms have "find (\<lambda>x. ref x = i) (preorder node) = None"
    by (simp add: find_None_iff)
  then show ?thesis by (simp add: find_path_to)
qed

text \<open>
  Every node of a tree that \<open>filterTree\<close> returns for a term with a non-empty trimmed form
  is a new object, so the search by identity in the tree that was filtered finds none of
  them.
\<close>

lemma findNodePath_of_filtered:
  assumes ne: "trim trm \<noteq> []"
    and below: "\<forall>x \<in> set (preorder kernelData). ref x < nxt"
    and res: "filterTree kernelData trm nxt = (Some T', nxt')"
    and node: "node \<in> set (preorder T')"
  shows "findNodePath kernelData node = []"
proof -
  from ne have "trim (toLowerCase trm) \<noteq> []" by (simp add: trim_toLowerCase_Nil)
  from filterTree_fresh(1)[OF this res] node have "nxt \<le> ref node" by auto
  with below have "\<forall>x \<in> set (preorder kernelData). ref x \<noteq> ref node" by fastforce
  then have "path_to (ref node) kernelData = None" by (rule path_to_None)
  then show ?thesis by (simp add: findNodePath_eq)
qed

text \<open>
  C2.  In the scenario the user types \<open>sched\<close>, opens \<open>kernel\<close> and selects
  \<open>sched.c\<close>.  The selected node is the copy that \<open>filterTree\<close> made, with the
  reference 4; \<open>handleNodeSelect\<close> looks for that object in \<open>kernelData\<close>, where
  \<open>sched.c\<close> is the object 2, and the breadcrumb path comes out empty.
\<close>

theorem selection_under_filter_has_empty_path:
  "searchTerm (App_run scenario_root
      [SearchChange ''sched'', NodeInteraction [0], NodeInteraction [0, 0]]) = ''sched'' \<and>
   selectedNode (App_run scenario_root
      [SearchChange ''sched'', NodeInteraction [0], NodeInteraction [0, 0]]) =
     Some (KernelNode 4 ''sched.c'' ''scheduler'' ''CPU scheduler'' None) \<and>
   selectedNodePath (App_run scenario_root
      [SearchChange ''sched'', NodeInteraction [0], NodeInteraction [0, 0]]) = []"
  by code_simp

section \<open>Properties of the search box\<close>

text \<open>
  C10.  After the handler of the search box has run and the page is rendered again, no
  node is selected and the breadcrumb path is empty, whatever was selected before; the
  search term is the value typed.
\<close>

theorem search_change_clears_selection:
  "selectedNode (App_step kernelData st (SearchChange v)) = None \<and>
   selectedNodePath (App_step kernelData st (SearchChange v)) = [] \<and>
   searchTerm (App_step kernelData st (SearchChange v)) = v"
  by (simp add: App_render_def handleSearchChange_def Let_def split: prod.splits)

section \<open>Properties of the renders\<close>

lemma survives_self_match:
  "survives T t \<Longrightarrow> \<exists>n \<in> set (preorder T). self_matches n t"
  "survives_any cs t \<Longrightarrow> \<exists>n \<in> set (preorder_list cs). self_matches n t"
proof (induction T t and cs t rule: survives_survives_any.induct)
  case (1 r n s d ch t)
  then show ?case by (cases ch) auto
next
  case (2 t)
  then show ?case by simp
next
  case (3 c cs t)
  then show ?case by auto
qed

lemma filterTree_no_match:
  assumes "trim s = s" and "s \<noteq> []" and "\<forall>n \<in> set (preorder T). \<not> self_matches n s"
  shows "fst (filterTree T s nxt) = None"
proof -
  from assms(3) have ns: "\<not> survives T (trim s)"
    using survives_self_match(1)[of T s] assms(1) by auto
  from assms(1,2) have ne: "trim (toLowerCase s) \<noteq> []"
    by (simp add: trim_toLowerCase_Nil)
  from filterTree_characterisation(1)[OF ne refl, of T nxt] ns show ?thesis
    by (cases "fst (filterTree T s nxt)") auto
qed

lemma searchTerm_App_render [simp]: "searchTerm (App_render kd p st) = searchTerm st"
  by (simp add: App_render_def Let_def split_beta)

lemma filteredData_App_render:
  "filteredData (App_render kd p st) =
     (if searchTerm st = p then filteredData st
      else if searchTerm st = [] then Some kd
      else fst (filterTree kd (searchTerm st) (next_object st)))"
  by (simp add: App_render_def Let_def split_beta)

lemma shown_App_render:
  "shown (App_render kd p st) =
     (case filteredData (App_render kd p st) of
        None \<Rightarrow> NoResults (searchTerm st)
      | Some data \<Rightarrow>
          Visualizer (visualizerKey st)
            (TreeNode True (length (searchTerm st) > 0)
               (case shown st of
                  Visualizer k inst \<Rightarrow> if k = visualizerKey st then Some inst else None
                | NoResults _ \<Rightarrow> None) data))"
  by (simp add: App_render_def Let_def split_beta)

lemma App_render_memo:
  assumes "searchTerm st = p \<longrightarrow> searchTerm st \<noteq> [] \<longrightarrow>
             (\<exists>n. filteredData st = fst (filterTree kd (searchTerm st) n))"
  shows "searchTerm st \<noteq> [] \<longrightarrow>
           (\<exists>n. filteredData (App_render kd p st) = fst (filterTree kd (searchTerm st) n))"
  using assms by (auto simp: filteredData_App_render)

lemma App_step_memo:
  assumes "searchTerm st \<noteq> [] \<longrightarrow>
             (\<exists>n. filteredData st = fst (filterTree kd (searchTerm st) n))"
  shows "searchTerm (App_step kd st ev) \<noteq> [] \<longrightarrow>
           (\<exists>n. filteredData (App_step kd st ev) =
                  fst (filterTree kd (searchTerm (App_step kd st ev)) n))"
proof (cases ev)
  case (SearchChange v)
  have "searchTerm (handleSearchChange v st) \<noteq> [] \<longrightarrow>
          (\<exists>n. filteredData (App_render kd (searchTerm st) (handleSearchChange v st)) =
                 fst (filterTree kd (searchTerm (handleSearchChange v st)) n))"
    by (rule App_render_memo) (use assms in \<open>auto simp: handleSearchChange_def\<close>)
  then show ?thesis using SearchChange by simp
next
  case (NodeInteraction pos)
  show ?thesis
  proof (cases "shown st")
    case (Visualizer k root)
    show ?thesis
    proof (cases "inst_at pos root")
      case None
      then show ?thesis using NodeInteraction Visualizer assms
        by (simp add: handleInteraction_def)
    next
      case (Some inst)
      let ?st1 = "(handleNodeSelect kd (inst_node inst) st)
                    \<lparr>shown := Visualizer k
                       (if isDirectory (inst_node inst) then toggle_at pos root else root)\<rparr>"
      have "searchTerm ?st1 \<noteq> [] \<longrightarrow>
              (\<exists>n. filteredData (App_render kd (searchTerm st) ?st1) =
                     fst (filterTree kd (searchTerm ?st1) n))"
        by (rule App_render_memo) (use assms in \<open>auto simp: handleNodeSelect_def\<close>)
      then show ?thesis using NodeInteraction Visualizer Some
        by (simp add: handleInteraction_def)
    qed
  next
    case (NoResults x)
    then show ?thesis using NodeInteraction assms by (simp add: handleInteraction_def)
  qed
next
  case (BreadcrumbClick i)
  let ?st1 = "handleNodeSelect kd (selectedNodePath st ! i) st"
  have "searchTerm ?st1 \<noteq> [] \<longrightarrow>
          (\<exists>n. filteredData (App_render kd (searchTerm st) ?st1) =
                 fst (filterTree kd (searchTerm ?st1) n))"
    by (rule App_render_memo) (use assms in \<open>auto simp: handleNodeSelect_def\<close>)
  then show ?thesis using BreadcrumbClick assms by simp
next
  case CollapseAll
  then show ?thesis by (simp add: handleCollapseAll_def)
qed

lemma App_run_snoc: "App_run kd (evs @ [ev]) = App_step kd (App_run kd evs) ev"
  by (simp add: App_run_def)

lemma App_run_memo:
  "searchTerm (App_run kd evs) \<noteq> [] \<longrightarrow>
     (\<exists>n. filteredData (App_run kd evs) = fst (filterTree kd (searchTerm (App_run kd evs)) n))"
proof (induction evs rule: rev_induct)
  case Nil
  then show ?case by (simp add: App_run_def App_init_def)
next
  case (snoc ev evs)
  then show ?case unfolding App_run_snoc by (rule App_step_memo)
qed

text \<open>
  C9.  For a trimmed, non-empty term \<open>s\<close> that no node of the tree matches by itself,
  \<open>filterTree\<close> returns \<open>null\<close>, and after the term has been typed into the search box,
  at any point of a session, the page shows the message that nothing was found for \<open>s\<close>
  in place of the tree.
\<close>

theorem no_match_shows_no_results:
  assumes "trim s = s" and "s \<noteq> []" and "\<forall>n \<in> set (preorder T). \<not> self_matches n s"
  shows "fst (filterTree T s nxt) = None \<and>
         shown (App_run T (evs @ [SearchChange s])) = NoResults s"
proof
  show "fst (filterTree T s nxt) = None" using assms by (rule filterTree_no_match)
next
  have none: "\<And>n. fst (filterTree T s n) = None" using assms by (rule filterTree_no_match)
  let ?st = "App_run T evs"
  have "filteredData (App_render T (searchTerm ?st) (handleSearchChange s ?st)) = None"
  proof (cases "s = searchTerm ?st")
    case True
    with App_run_memo[of T evs] assms(2) none have "filteredData ?st = None" by auto
    with True show ?thesis
      by (simp add: filteredData_App_render handleSearchChange_def)
  next
    case False
    with assms(2) none[of "next_object ?st"] show ?thesis
      by (simp add: filteredData_App_render handleSearchChange_def)
  qed
  then show "shown (App_run T (evs @ [SearchChange s])) = NoResults s"
    unfolding App_run_snoc
    by (simp add: shown_App_render handleSearchChange_def)
qed

theorem no_match_shows_no_results_witness:
  "trim ''zzz'' = ''zzz'' \<and> ''zzz'' \<noteq> [] \<and>
   list_all (\<lambda>n. \<not> self_matches n ''zzz'') (preorder scenario_root) \<and>
   (fst (filterTree scenario_root ''zzz'' 4) = None \<and>
    shown (App_run scenario_root ([NodeInteraction [0]] @ [SearchChange ''zzz''])) =
      NoResults ''zzz'')"
proof -
  have h1: "trim ''zzz'' = ''zzz''" by code_simp
  have h2: "''zzz'' \<noteq> []" by simp
  have h3: "list_all (\<lambda>n. \<not> self_matches n ''zzz'') (preorder scenario_root)" by code_simp
  then have h3': "\<forall>n \<in> set (preorder scenario_root). \<not> self_matches n ''zzz''"
    by (simp only: list_all_iff)
  show ?thesis
    by (intro conjI h1 h2 h3) (use no_match_shows_no_results[OF h1 h2 h3'] in blast)+
qed

section \<open>Properties of the expansion state\<close>

lemma isExpanded_root_TreeNode:
  "isExpanded (TreeNode True se prev data) = (case prev of None \<Rightarrow> True | Some p \<Rightarrow> isExpanded p)"
  by (cases data) (simp add: Let_def split: option.splits)

lemma isExpanded_toggle_below: "isExpanded (toggle_at (i # pos) t) = isExpanded t"
  by (cases t) simp

lemma App_render_root_expanded:
  assumes "\<forall>k i. shown st = Visualizer k i \<longrightarrow> isExpanded i"
    and "shown (App_render kd prevTerm st) = Visualizer k inst"
  shows "isExpanded inst"
  using assms
  by (auto simp: shown_App_render isExpanded_root_TreeNode
           split: option.splits screen.splits if_splits)

lemma App_step_root_expanded:
  assumes inv: "\<forall>k i. shown st = Visualizer k i \<longrightarrow> isExpanded i"
    and ev: "ev \<noteq> NodeInteraction []"
  shows "\<forall>k i. shown (App_step kd st ev) = Visualizer k i \<longrightarrow> isExpanded i"
proof (cases ev)
  case (SearchChange v)
  have "\<forall>k i. shown (handleSearchChange v st) = Visualizer k i \<longrightarrow> isExpanded i"
    using inv by (simp add: handleSearchChange_def)
  then show ?thesis using SearchChange App_render_root_expanded by auto
next
  case (NodeInteraction pos)
  with ev obtain i pos' where pos: "pos = i # pos'" by (cases pos) auto
  show ?thesis
  proof (cases "shown st")
    case (Visualizer k root)
    show ?thesis
    proof (cases "inst_at pos root")
      case None
      then show ?thesis using NodeInteraction Visualizer inv
        by (simp add: handleInteraction_def)
    next
      case (Some inst)
      let ?st1 = "(handleNodeSelect kd (inst_node inst) st)
                    \<lparr>shown := Visualizer k
                       (if isDirectory (inst_node inst) then toggle_at pos root else root)\<rparr>"
      have "\<forall>k i. shown ?st1 = Visualizer k i \<longrightarrow> isExpanded i"
        using inv Visualizer pos by (auto simp: isExpanded_toggle_below)
      then have "\<forall>k' i. shown (App_render kd (searchTerm st) ?st1) = Visualizer k' i \<longrightarrow> isExpanded i"
        using App_render_root_expanded by blast
      then show ?thesis using NodeInteraction Visualizer Some
        by (simp add: handleInteraction_def)
    qed
  next
    case (NoResults x)
    then show ?thesis using NodeInteraction by (simp add: handleInteraction_def)
  qed
next
  case (BreadcrumbClick i)
  have "\<forall>k j. shown (handleNodeSelect kd (selectedNodePath st ! i) st) = Visualizer k j \<longrightarrow> isExpanded j"
    using inv by (simp add: handleNodeSelect_def)
  then show ?thesis using BreadcrumbClick inv App_render_root_expanded by auto
next
  case CollapseAll
  have "\<forall>k i. shown (handleCollapseAll st) = Visualizer k i \<longrightarrow> isExpanded i"
    using inv by (simp add: handleCollapseAll_def)
  then show ?thesis using CollapseAll App_render_root_expanded by auto
qed

text \<open>
  C4, as amended.  As long as the user does not interact with the root element itself, the
  root is expanded whenever the tree is on the page: typing in the search box, interacting
  with any other node, clicking a breadcrumb and ``Collapse All'' leave it expanded.
\<close>

theorem root_expanded_without_root_interaction:
  assumes "NodeInteraction [] \<notin> set evs"
    and "shown (App_run kernelData evs) = Visualizer k inst"
  shows "isExpanded inst"
proof -
  have "NodeInteraction [] \<notin> set evs \<Longrightarrow>
        \<forall>k i. shown (App_run kernelData evs) = Visualizer k i \<longrightarrow> isExpanded i"
  proof (induction evs rule: rev_induct)
    case Nil
    then show ?case by (simp add: App_run_def App_init_def isExpanded_root_TreeNode)
  next
    case (snoc ev evs)
    then have "\<forall>k i. shown (App_run kernelData evs) = Visualizer k i \<longrightarrow> isExpanded i"
      and "ev \<noteq> NodeInteraction []" by auto
    then show ?case unfolding App_run_snoc by (rule App_step_root_expanded)
  qed
  with assms show ?thesis by blast
qed

theorem root_expanded_without_root_interaction_witness:
  "NodeInteraction [] \<notin> set [SearchChange ''mm'', NodeInteraction [0], CollapseAll] \<and>
   shown (App_run scenario_root [SearchChange ''mm'', NodeInteraction [0], CollapseAll]) =
     Visualizer 1
       (TreeNodeInst scenario_root True
          [TreeNodeInst scenario_A False [], TreeNodeInst scenario_C False []]) \<and>
   isExpanded
     (TreeNodeInst scenario_root True
        [TreeNodeInst scenario_A False [], TreeNodeInst scenario_C False []])"
proof -
  have h1: "NodeInteraction [] \<notin> set [SearchChange ''mm'', NodeInteraction [0], CollapseAll]"
    by simp
  have h2: "shown (App_run scenario_root [SearchChange ''mm'', NodeInteraction [0], CollapseAll]) =
     Visualizer 1
       (TreeNodeInst scenario_root True
          [TreeNodeInst scenario_A False [], TreeNodeInst scenario_C False []])"
    by code_simp
  show ?thesis
    by (intro conjI h1 h2) (rule root_expanded_without_root_interaction[OF h1 h2])
qed

text \<open>
  C4 as it is stated fails: \<open>handleInteraction\<close> flips \<open>isExpanded\<close> of every directory,
  the root included.  One interaction with the root of the scenario collapses it.
\<close>

theorem root_collapses_counterexample:
  "shown (App_run scenario_root [NodeInteraction []]) =
     Visualizer 0 (TreeNodeInst scenario_root False []) \<and>
   \<not> isExpanded (TreeNodeInst scenario_root False [])"
  by code_simp

lemma TreeNode_mount_expanded:
  "se \<Longrightarrow> prev = None \<Longrightarrow>
     list_all isExpanded (instances (TreeNode isRoot se prev node)) \<and>
     displayed (TreeNode isRoot se prev node) = preorder node"
  "se \<Longrightarrow> prevs = [] \<Longrightarrow>
     list_all isExpanded (concat (map instances (TreeNode_children se prevs cs))) \<and>
     map inst_node (concat (map instances (TreeNode_children se prevs cs))) = preorder_list cs"
proof (induction isRoot se prev node and se prevs cs rule: TreeNode_TreeNode_children.induct)
  case (1 isRoot se prev r n s d ch)
  show ?case
  proof (cases "isDirectory (KernelNode r n s d ch)")
    case True
    then obtain cs where ch: "ch = Some cs" by (auto simp: isDirectory_def split: option.splits)
    from "1.IH"[OF refl refl _ ch] True "1.prems"
    have "list_all isExpanded (concat (map instances (TreeNode_children se [] cs)))"
      "map inst_node (concat (map instances (TreeNode_children se [] cs))) = preorder_list cs"
      by auto
    then show ?thesis using True "1.prems" ch by (simp add: displayed_def)
  next
    case False
    then have "ch = None \<or> ch = Some []" by (auto simp: isDirectory_def split: option.splits)
    then show ?thesis using False "1.prems" by (auto simp: displayed_def)
  qed
next
  case (2 se prevs)
  then show ?case by simp
next
  case (3 se prevs c cs)
  then show ?case by (simp add: displayed_def)
qed

text \<open>
  Where \<open>startExpanded\<close> does take effect: when the tree view is mounted while a search is
  active (the page showed the message that nothing was found, and a non-empty term with
  results is typed), every node of the filtered tree is displayed and every one is expanded.
\<close>

lemma search_mount_all_expanded:
  assumes "shown st = NoResults x" and "v \<noteq> []"
    and "shown (App_step kernelData st (SearchChange v)) = Visualizer k inst"
  shows "list_all isExpanded (instances inst) \<and>
         (\<exists>data. filteredData (App_step kernelData st (SearchChange v)) = Some data \<and>
                 displayed inst = preorder data)"
proof -
  let ?st1 = "handleSearchChange v st"
  have t: "searchTerm ?st1 = v" and s: "shown ?st1 = NoResults x"
    using assms(1) by (simp_all add: handleSearchChange_def)
  from assms(3) obtain data where
    fd: "filteredData (App_render kernelData (searchTerm st) ?st1) = Some data"
    and inst: "inst = TreeNode True True None data"
    using assms(2) by (auto simp: shown_App_render t s split: option.splits)
  from TreeNode_mount_expanded(1)[of True None True data] inst fd show ?thesis by simp
qed

lemma search_mount_all_expanded_example:
  "shown (App_run scenario_root [SearchChange ''zzz'']) = NoResults ''zzz'' \<and>
   ''sched'' \<noteq> [] \<and>
   shown (App_step scenario_root (App_run scenario_root [SearchChange ''zzz''])
            (SearchChange ''sched'')) =
     Visualizer 0 (TreeNode True True None
       (KernelNode 6 ''linux'' [] []
          (Some [KernelNode 5 ''kernel'' ''core'' []
             (Some [KernelNode 4 ''sched.c'' ''scheduler'' ''CPU scheduler'' None])]))) \<and>
   (list_all isExpanded (instances (TreeNode True True None
       (KernelNode 6 ''linux'' [] []
          (Some [KernelNode 5 ''kernel'' ''core'' []
             (Some [KernelNode 4 ''sched.c'' ''scheduler'' ''CPU scheduler'' None])])))) \<and>
    (\<exists>data. filteredData (App_step scenario_root (App_run scenario_root [SearchChange ''zzz''])
                (SearchChange ''sched'')) = Some data \<and>
            displayed (TreeNode True True None
       (KernelNode 6 ''linux'' [] []
          (Some [KernelNode 5 ''kernel'' ''core'' []
             (Some [KernelNode 4 ''sched.c'' ''scheduler'' ''CPU scheduler'' None])]))) =
              preorder data))"
proof -
  have h1: "shown (App_run scenario_root [SearchChange ''zzz'']) = NoResults ''zzz''"
    by code_simp
  have h2: "''sched'' \<noteq> []" by simp
  have h3: "shown (App_step scenario_root (App_run scenario_root [SearchChange ''zzz''])
            (SearchChange ''sched'')) =
     Visualizer 0 (TreeNode True True None
       (KernelNode 6 ''linux'' [] []
          (Some [KernelNode 5 ''kernel'' ''core'' []
             (Some [KernelNode 4 ''sched.c'' ''scheduler'' ''CPU scheduler'' None])])))"
    by code_simp
  show ?thesis
    by (intro conjI h1 h2 h3) (use search_mount_all_expanded[OF h1 h2 h3] in blast)+
qed

text \<open>
  During a search an interaction still collapses a directory.  After the term \<open>sched\<close>
  has been typed and the root has been clicked, the search term is not empty and the root,
  the one node displayed, is collapsed.
\<close>

lemma collapsed_during_search:
  "searchTerm (App_run scenario_root [SearchChange ''sched'', NodeInteraction []]) \<noteq> [] \<and>
   (case shown (App_run scenario_root [SearchChange ''sched'', NodeInteraction []]) of
      Visualizer k inst \<Rightarrow> \<not> list_all isExpanded (instances inst)
    | NoResults x \<Rightarrow> False)"
  by code_simp

text \<open>
  C5.  The claim fails on the code.  \<open>KernelVisualizer\<close> hands \<open>searchActive\<close> down as
  \<open>startExpanded\<close>, and \<open>TreeNode\<close> uses it only as the initial value of \<open>useState\<close>,
  so a node that was on the page before the search began keeps the state it had.  In the
  scenario \<open>kernel\<close> is the first child of the root before and after the term \<open>sched\<close>
  is typed on the first page: its component continues under the key \<open>kernel-0\<close>,
  collapsed, and \<open>sched.c\<close> is not displayed, while the search term is not empty.
\<close>

theorem search_keeps_mounted_node_collapsed:
  "searchTerm (App_run scenario_root [SearchChange ''sched'']) = ''sched'' \<and>
   filteredData (App_run scenario_root [SearchChange ''sched'']) =
     Some (KernelNode 6 ''linux'' [] []
             (Some [KernelNode 5 ''kernel'' ''core'' []
                (Some [KernelNode 4 ''sched.c'' ''scheduler'' ''CPU scheduler'' None])])) \<and>
   shown (App_run scenario_root [SearchChange ''sched'']) =
     Visualizer 0
       (TreeNodeInst
          (KernelNode 6 ''linux'' [] []
             (Some [KernelNode 5 ''kernel'' ''core'' []
                (Some [KernelNode 4 ''sched.c'' ''scheduler'' ''CPU scheduler'' None])]))
          True
          [TreeNodeInst
             (KernelNode 5 ''kernel'' ''core'' []
                (Some [KernelNode 4 ''sched.c'' ''scheduler'' ''CPU scheduler'' None]))
             False []]) \<and>
   \<not> isExpanded
       (TreeNodeInst
          (KernelNode 5 ''kernel'' ''core'' []
             (Some [KernelNode 4 ''sched.c'' ''scheduler'' ''CPU scheduler'' None]))
          False [])"
  by code_simp

section \<open>Properties of the highlight engine\<close>

text \<open>
  Below 256 two code units have the same canonical form exactly when they have the same
  lower case, so the regular expression and the filter look for the same occurrences.
\<close>

lemma of_char_canonicalize:
  "(of_char (canonicalize c) :: nat) =
     (let n = of_char c
      in if (97 \<le> n \<and> n \<le> 122) \<or> (224 \<le> n \<and> n \<le> 254 \<and> n \<noteq> 247) then n - 32 else n)"
  using nat_of_char_less_256[of c] by (auto simp: canonicalize_def Let_def of_char_of)

lemma canonicalize_toLowerCase_char: "canonicalize (toLowerCase_char c) = canonicalize c"
  apply (rule of_char_eqI[where ?'a=nat])
  apply (simp only: of_char_canonicalize[of "toLowerCase_char c"])
  apply (auto simp add: of_char_canonicalize of_char_toLowerCase_char Let_def)
  done

lemma toLowerCase_char_canonicalize: "toLowerCase_char (canonicalize c) = toLowerCase_char c"
  apply (rule of_char_eqI[where ?'a=nat])
  apply (simp only: of_char_toLowerCase_char[of "canonicalize c"])
  apply (auto simp add: of_char_canonicalize of_char_toLowerCase_char Let_def)
  done

lemma canonicalize_eq_iff:
  "canonicalize a = canonicalize b \<longleftrightarrow> toLowerCase_char a = toLowerCase_char b"
  by (metis canonicalize_toLowerCase_char toLowerCase_char_canonicalize)

lemma startsWith_match_at: "startsWith (toLowerCase s) (toLowerCase t) = match_at t s"
  by (induction t s rule: match_at.induct)
     (auto simp: toLowerCase_def canonicalize_eq_iff)

lemma regex_search_includes:
  "regex_search t s \<noteq> None \<longleftrightarrow> includes_str (toLowerCase s) (toLowerCase t)"
proof (induction s)
  case Nil
  show ?case by (cases t) (simp_all add: toLowerCase_def)
next
  case (Cons c cs)
  have "includes_str (toLowerCase (c # cs)) (toLowerCase t) \<longleftrightarrow>
        startsWith (toLowerCase (c # cs)) (toLowerCase t) \<or>
        includes_str (toLowerCase cs) (toLowerCase t)"
    by (simp add: toLowerCase_def)
  with Cons show ?case by (simp add: startsWith_match_at)
qed

lemma regex_search_None_iff:
  "regex_search pat s = None \<longleftrightarrow> (\<forall>i \<le> length s. \<not> match_at pat (drop i s))"
proof (induction s)
  case Nil
  then show ?case by simp
next
  case (Cons c cs)
  have "(\<forall>i \<le> length (c # cs). \<not> match_at pat (drop i (c # cs))) \<longleftrightarrow>
        \<not> match_at pat (c # cs) \<and> (\<forall>j \<le> length cs. \<not> match_at pat (drop j cs))"
    (is "?L \<longleftrightarrow> ?R")
  proof
    assume l: ?L
    have "\<not> match_at pat (c # cs)" using l[rule_format, of 0] by simp
    moreover have "\<forall>j \<le> length cs. \<not> match_at pat (drop j cs)"
    proof (intro allI impI)
      fix j assume "j \<le> length cs"
      then show "\<not> match_at pat (drop j cs)" using l[rule_format, of "Suc j"] by simp
    qed
    ultimately show ?R by simp
  next
    assume r: ?R
    show ?L
    proof (intro allI impI)
      fix i assume "i \<le> length (c # cs)"
      then show "\<not> match_at pat (drop i (c # cs))" using r by (cases i) auto
    qed
  qed
  with Cons show ?case by simp
qed

lemma match_at_append: "match_at pat s \<Longrightarrow> match_at pat (s @ t)"
  by (induction pat s rule: match_at.induct) auto

lemma match_at_take: "match_at pat s \<Longrightarrow> match_at pat (take (length pat) s)"
  by (induction pat s rule: match_at.induct) auto

lemma match_at_length: "match_at pat s \<Longrightarrow> length pat \<le> length s"
  by (induction pat s rule: match_at.induct) auto

lemma regex_test_no_occurrence:
  assumes "no_occurrence pat p"
  shows "regex_test pat p li = (False, 0)"
proof (cases "li > length p")
  case True
  then show ?thesis by (simp add: regex_test_def)
next
  case False
  have "regex_search pat (drop li p) = None"
    unfolding regex_search_None_iff
  proof (intro allI impI)
    fix j assume "j \<le> length (drop li p)"
    then have "j + li \<le> length p" using False by simp
    with assms have "\<not> match_at pat (drop (j + li) p)"
      by (simp add: no_occurrence_def regex_search_None_iff)
    then show "\<not> match_at pat (drop j (drop li p))" by simp
  qed
  with False show ?thesis by (simp add: regex_test_def)
qed

lemma regex_test_match:
  assumes "match_at pat m"
  shows "regex_test pat m 0 = (True, length pat)"
  using assms by (cases m) (simp_all add: regex_test_def)

lemma highlightParts_shape:
  "split_shape pat ps \<Longrightarrow> highlightParts pat ps li = (tag_parts plain ps, 0)"
proof (induction pat ps arbitrary: li rule: split_shape.induct)
  case (1 pat)
  then show ?case by simp
next
  case (2 pat p)
  then show ?case by (simp add: regex_test_no_occurrence)
next
  case (3 pat p m rest)
  then have a: "no_occurrence pat p" and b: "match_at pat m" and c: "split_shape pat rest"
    by auto
  from "3.IH"[OF c] show ?case
    by (simp add: regex_test_no_occurrence[OF a] regex_test_match[OF b])
qed

lemma regex_split_loop_shape:
  "pat \<noteq> [] \<Longrightarrow> \<forall>i < length acc. \<not> match_at pat (drop i (acc @ rest)) \<Longrightarrow>
     split_shape pat (regex_split_loop pat acc rest)"
proof (induction pat acc rest rule: regex_split_loop.induct)
  case (1 pat acc)
  have "\<forall>i \<le> length acc. \<not> match_at pat (drop i acc)"
  proof (intro allI impI)
    fix i assume "i \<le> length acc"
    show "\<not> match_at pat (drop i acc)"
    proof (cases "i < length acc")
      case True
      with "1.prems"(2) show ?thesis by simp
    next
      case False
      with \<open>i \<le> length acc\<close> have "drop i acc = []" by simp
      with "1.prems"(1) show ?thesis by (cases pat) auto
    qed
  qed
  then show ?case by (simp add: no_occurrence_def regex_search_None_iff)
next
  case (2 pat acc c cs)
  show ?case
  proof (cases "match_at pat (c # cs)")
    case True
    have na: "no_occurrence pat acc"
      unfolding no_occurrence_def regex_search_None_iff
    proof (intro allI impI)
      fix i assume i: "i \<le> length acc"
      show "\<not> match_at pat (drop i acc)"
      proof (cases "i < length acc")
        case True
        with "2.prems"(2) have "\<not> match_at pat (drop i acc @ (c # cs))" by simp
        then show ?thesis using match_at_append by blast
      next
        case False
        with i have "drop i acc = []" by simp
        with "2.prems"(1) show ?thesis by (cases pat) auto
      qed
    qed
    have ne: "\<not> (pat = [] \<and> acc = [])" using "2.prems"(1) by simp
    have "split_shape pat (regex_split_loop pat [] (drop (length pat) (c # cs)))"
      by (rule "2.IH"(2)[OF True ne "2.prems"(1)]) simp
    moreover have "length (take (length pat) (c # cs)) = length pat"
      using match_at_length[OF True] by simp
    ultimately show ?thesis using True "2.prems"(1) na match_at_take[OF True]
      by simp
  next
    case False
    have "\<forall>i < length (acc @ [c]). \<not> match_at pat (drop i ((acc @ [c]) @ cs))"
    proof (intro allI impI)
      fix i assume i: "i < length (acc @ [c])"
      show "\<not> match_at pat (drop i ((acc @ [c]) @ cs))"
      proof (cases "i < length acc")
        case True
        with "2.prems"(2) show ?thesis by simp
      next
        case False
        with i have "i = length acc" by simp
        then show ?thesis using \<open>\<not> match_at pat (c # cs)\<close> by simp
      qed
    qed
    from "2.IH"(3)[OF False "2.prems"(1) this] False show ?thesis by simp
  qed
qed

lemma match_at_Nil_iff: "match_at pat [] \<longleftrightarrow> pat = []"
  by (cases pat) auto

lemma regex_split_shape: "pat \<noteq> [] \<Longrightarrow> split_shape pat (regex_split pat s)"
  by (simp add: regex_split_def regex_split_loop_shape match_at_Nil_iff no_occurrence_def)

lemma concat_regex_split_loop: "concat (regex_split_loop pat acc rest) = acc @ rest"
  by (induction pat acc rest rule: regex_split_loop.induct) auto

lemma concat_regex_split: "concat (regex_split pat s) = s"
  by (simp add: regex_split_def concat_regex_split_loop)

lemma length_regex_split_loop:
  "pat \<noteq> [] \<Longrightarrow> (length (regex_split_loop pat acc rest) > 1 \<longleftrightarrow> regex_search pat rest \<noteq> None)"
  by (induction pat acc rest rule: regex_split_loop.induct) (auto simp: match_at_Nil_iff)

lemma length_regex_split:
  assumes "pat \<noteq> []"
  shows "length (regex_split pat s) > 1 \<longleftrightarrow> regex_search pat s \<noteq> None"
proof (cases "s = []")
  case True
  then show ?thesis using assms by (simp add: regex_split_def match_at_Nil_iff)
next
  case False
  then show ?thesis using length_regex_split_loop[OF assms, of "[]" s]
    by (simp add: regex_split_def)
qed

lemma highlightLines_shape:
  "pat \<noteq> [] \<Longrightarrow>
     highlightLines pat lines 0 = (map (\<lambda>l. tag_parts plain (regex_split pat l)) lines, 0)"
  by (induction lines) (simp_all add: highlightParts_shape regex_split_shape)

lemma HighlightText_eq:
  "HighlightText text highlight as =
     (if trim highlight = [] then
        (case as of
           as_p \<Rightarrow> Paragraphs (map (\<lambda>line. [(plain, line)]) (split_on newline text))
         | as_span \<Rightarrow> Inline [(plain, text)])
      else
        (case as of
           as_p \<Rightarrow> Paragraphs (map (\<lambda>l. tag_parts plain (regex_split highlight l))
                                  (split_on newline text))
         | as_span \<Rightarrow> Inline (tag_parts plain (regex_split highlight text))))"
proof (cases "trim highlight = []")
  case True
  then show ?thesis by (simp add: HighlightText_def)
next
  case False
  then have "highlight \<noteq> []" by auto
  then show ?thesis using False
    by (simp add: HighlightText_def highlightLines_shape highlightParts_shape regex_split_shape
             split: as_mode.splits)
qed

lemma concat_tag_parts: "concat (map snd (tag_parts t ps)) = concat ps"
  by (induction ps arbitrary: t) auto

lemma alternates_tag_parts: "alternates t (tag_parts t ps)"
  by (induction ps arbitrary: t) auto

lemma matched_tag_parts:
  "(\<exists>sp \<in> set (tag_parts t ps). fst sp = matched) \<longleftrightarrow>
     (t = matched \<and> ps \<noteq> []) \<or> length ps > 1"
proof (induction ps arbitrary: t)
  case Nil
  then show ?case by simp
next
  case (Cons p ps)
  show ?case using Cons[of "other_tag t"] by (cases t; cases ps) auto
qed

lemma spans_tag_parts:
  "split_shape pat ps \<Longrightarrow>
     list_all (\<lambda>sp. case fst sp of
                      matched \<Rightarrow> match_at pat (snd sp) \<and> length (snd sp) = length pat
                    | plain \<Rightarrow> no_occurrence pat (snd sp))
       (tag_parts plain ps)"
  by (induction pat ps rule: split_shape.induct) auto

lemma split_on_not_Nil [simp]: "split_on sep s \<noteq> []"
  by (induction s) (auto split: list.splits)

lemma join_lines_split_on: "join_lines (split_on newline s) = s"
proof (induction s)
  case Nil
  then show ?case by simp
next
  case (Cons c cs)
  obtain l ls where e: "split_on newline cs = l # ls"
    using split_on_not_Nil[of newline cs] by (cases "split_on newline cs") auto
  with Cons show ?case by (cases ls) auto
qed

lemma split_on_no_sep: "l \<in> set (split_on sep s) \<Longrightarrow> sep \<notin> set l"
proof (induction s arbitrary: l)
  case Nil
  then show ?case by simp
next
  case (Cons c cs)
  obtain l' ls where e: "split_on sep cs = l' # ls"
    using split_on_not_Nil[of sep cs] by (cases "split_on sep cs") auto
  with Cons show ?case by (auto split: if_splits)
qed

lemma split_on_first:
  "split_on sep s = l # ls \<Longrightarrow> (s = l \<and> ls = []) \<or> (\<exists>rest. s = l @ sep # rest)"
proof (induction s arbitrary: l ls)
  case Nil
  then show ?case by simp
next
  case (Cons c cs)
  obtain l' ls' where e: "split_on sep cs = l' # ls'"
    using split_on_not_Nil[of sep cs] by (cases "split_on sep cs") auto
  from Cons.IH[OF e] Cons.prems e show ?case by (auto split: if_splits)
qed

lemma canonicalize_newline: "canonicalize p = canonicalize newline \<longleftrightarrow> p = newline"
proof -
  have "(of_char (canonicalize p) :: nat) = of_char (canonicalize newline) \<longleftrightarrow>
        (of_char p :: nat) = of_char newline"
    unfolding of_char_canonicalize by (auto simp: newline_def Let_def)
  then show ?thesis by (simp only: of_char_eq_iff)
qed

lemma match_at_before_newline:
  "newline \<notin> set pat \<Longrightarrow> match_at pat (l @ newline # rest) = match_at pat l"
  by (induction pat l rule: match_at.induct) (auto simp: canonicalize_newline)

lemma regex_search_lines:
  assumes "newline \<notin> set pat" and "pat \<noteq> []"
  shows "regex_search pat s \<noteq> None \<longleftrightarrow>
         (\<exists>l \<in> set (split_on newline s). regex_search pat l \<noteq> None)"
proof (induction s)
  case Nil
  then show ?case by simp
next
  case (Cons c cs)
  obtain l ls where e: "split_on newline cs = l # ls"
    using split_on_not_Nil[of newline cs] by (cases "split_on newline cs") auto
  show ?case
  proof (cases "c = newline")
    case True
    have "\<not> match_at pat (newline # cs)"
      using assms by (cases pat) (auto simp: canonicalize_newline)
    then show ?thesis using True Cons assms(2) by (auto simp: match_at_Nil_iff)
  next
    case False
    have "match_at pat (c # cs) = match_at pat (c # l)"
      using split_on_first[OF e] match_at_before_newline[OF assms(1), of "c # l"] by auto
    then show ?thesis using False Cons e by auto
  qed
qed

lemma no_newline_in_spans:
  assumes "newline \<notin> set (concat (map snd run))"
  shows "list_all (\<lambda>sp. newline \<notin> set (snd sp)) run"
  using assms by (induction run) auto

text \<open>
  C6, as amended.  For every text, term and mode the rendering stands for the text: the
  spans of an inline rendering, put one after the other, give the text; in the multi-line
  mode the spans of each paragraph give one line, and the lines with a line break between
  them give the text (no span holds a line break).  In each run the spans alternate,
  starting with a plain one; a matched span is an occurrence of the term, ignoring case,
  and, for a term that is not blank, a plain span holds no occurrence of it.
\<close>

theorem HighlightText_reconstruction:
  "rejoin (HighlightText text trm as) = text \<and>
   list_all (alternates plain) (runs_of (HighlightText text trm as)) \<and>
   list_all (\<lambda>sp. case fst sp of
                    matched \<Rightarrow> match_at trm (snd sp) \<and> length (snd sp) = length trm
                  | plain \<Rightarrow> trim trm = [] \<or> no_occurrence trm (snd sp))
     (spans_of (HighlightText text trm as)) \<and>
   (as = as_p \<longrightarrow>
      list_all (\<lambda>sp. newline \<notin> set (snd sp)) (spans_of (HighlightText text trm as)))"
proof (cases "trim trm = []")
  case True
  show ?thesis
  proof (cases as)
    case as_p
    have "list_all (\<lambda>sp. newline \<notin> set (snd sp))
            (concat (map (\<lambda>line. [(plain, line)]) (split_on newline text)))"
      by (auto simp: list_all_iff dest: split_on_no_sep)
    then show ?thesis using True as_p
      by (simp add: HighlightText_eq o_def join_lines_split_on list_all_iff)
  next
    case as_span
    then show ?thesis using True by (simp add: HighlightText_eq)
  qed
next
  case False
  then have ne: "trm \<noteq> []" by auto
  let ?run = "\<lambda>l. tag_parts plain (regex_split trm l)"
  have q: "\<And>l. list_all (\<lambda>sp. case fst sp of
                    matched \<Rightarrow> match_at trm (snd sp) \<and> length (snd sp) = length trm
                  | plain \<Rightarrow> trim trm = [] \<or> no_occurrence trm (snd sp)) (?run l)"
    by (rule list.pred_mono_strong[OF spans_tag_parts[OF regex_split_shape[OF ne]]])
       (auto split: span_tag.splits)
  show ?thesis
  proof (cases as)
    case as_p
    have r: "rejoin (HighlightText text trm as) = text"
      using False as_p
      by (simp add: HighlightText_eq o_def concat_tag_parts concat_regex_split join_lines_split_on)
    have n: "list_all (\<lambda>sp. newline \<notin> set (snd sp)) (concat (map ?run (split_on newline text)))"
    proof -
      have "\<And>l. l \<in> set (split_on newline text) \<Longrightarrow> list_all (\<lambda>sp. newline \<notin> set (snd sp)) (?run l)"
        by (rule no_newline_in_spans)
           (simp only: concat_tag_parts concat_regex_split split_on_no_sep not_False_eq_True)
      then show ?thesis by (auto simp: list_all_iff)
    qed
    have a: "list_all (alternates plain) (map ?run (split_on newline text))"
      by (simp add: list_all_iff alternates_tag_parts)
    have q': "list_all (\<lambda>sp. case fst sp of
                    matched \<Rightarrow> match_at trm (snd sp) \<and> length (snd sp) = length trm
                  | plain \<Rightarrow> trim trm = [] \<or> no_occurrence trm (snd sp))
               (concat (map ?run (split_on newline text)))"
      using q by (auto simp: list_all_iff)
    show ?thesis using r n a q' False as_p by (simp add: HighlightText_eq)
  next
    case as_span
    then show ?thesis using False q[of "text"]
      by (simp add: HighlightText_eq concat_tag_parts concat_regex_split alternates_tag_parts)
  qed
qed

theorem HighlightText_reconstruction_witness:
  "rejoin (HighlightText [CHR ''a'', newline, CHR ''b''] ''b'' as_p) =
     [CHR ''a'', newline, CHR ''b''] \<and>
   list_all (alternates plain) (runs_of (HighlightText [CHR ''a'', newline, CHR ''b''] ''b'' as_p)) \<and>
   list_all (\<lambda>sp. newline \<notin> set (snd sp))
     (spans_of (HighlightText [CHR ''a'', newline, CHR ''b''] ''b'' as_p))"
  using HighlightText_reconstruction[of "[CHR ''a'', newline, CHR ''b'']" "''b''" as_p]
  by blast

text \<open>
  C6 as it is stated fails in the multi-line mode: the text is split at the line breaks,
  each line becomes a paragraph, and the line breaks are in no span.  The spans of the two
  lines \<open>a\<close> and \<open>b\<close> give \<open>ab\<close>.
\<close>

theorem HighlightText_concat_counterexample:
  "concat (map snd (spans_of (HighlightText [CHR ''a'', newline, CHR ''b''] ''b'' as_p))) \<noteq>
     [CHR ''a'', newline, CHR ''b'']"
  by code_simp

lemma matched_in_split:
  assumes "trm \<noteq> []"
  shows "(\<exists>sp \<in> set (tag_parts plain (regex_split trm s)). fst sp = matched) \<longleftrightarrow>
         regex_search trm s \<noteq> None"
proof -
  have "(\<exists>sp \<in> set (tag_parts plain (regex_split trm s)). fst sp = matched) \<longleftrightarrow>
        length (regex_split trm s) > 1"
    unfolding matched_tag_parts by simp
  then show ?thesis unfolding length_regex_split[OF assms] .
qed

lemma matched_inline:
  assumes "trim trm \<noteq> []"
  shows "(\<exists>sp \<in> set (spans_of (HighlightText s trm as_span)). fst sp = matched) \<longleftrightarrow>
         regex_search trm s \<noteq> None"
proof -
  from assms have ne: "trm \<noteq> []" by auto
  have "spans_of (HighlightText s trm as_span) = tag_parts plain (regex_split trm s)"
    using assms by (simp add: HighlightText_eq)
  then show ?thesis using matched_in_split[OF ne, of s] by simp
qed

lemma matched_paragraphs:
  assumes "trim trm \<noteq> []" and "newline \<notin> set trm"
  shows "(\<exists>sp \<in> set (spans_of (HighlightText s trm as_p)). fst sp = matched) \<longleftrightarrow>
         regex_search trm s \<noteq> None"
proof -
  from assms have ne: "trm \<noteq> []" by auto
  have "spans_of (HighlightText s trm as_p) =
        concat (map (\<lambda>l. tag_parts plain (regex_split trm l)) (split_on newline s))"
    using assms by (simp add: HighlightText_eq)
  then have "(\<exists>sp \<in> set (spans_of (HighlightText s trm as_p)). fst sp = matched) \<longleftrightarrow>
        (\<exists>l \<in> set (split_on newline s).
           \<exists>sp \<in> set (tag_parts plain (regex_split trm l)). fst sp = matched)"
    by auto
  also have "\<dots> \<longleftrightarrow> (\<exists>l \<in> set (split_on newline s). regex_search trm l \<noteq> None)"
    unfolding matched_in_split[OF ne] ..
  also have "\<dots> \<longleftrightarrow> regex_search trm s \<noteq> None"
    using regex_search_lines[OF assms(2) ne, of s] by simp
  finally show ?thesis .
qed

text \<open>
  Where the filter and the highlight engine do agree, for texts and terms of code units
  below 256: for a term that is not empty and has no white space at its ends, a node
  matches by itself under the test of the filter if and only if the highlight engine, given
  the same term, marks a span in its name, its summary or its description; in the
  multi-line mode provided the term holds no line break.
\<close>

lemma HighlightText_filter_consistency:
  assumes "trim trm = trm" and "trm \<noteq> []" and "as = as_p \<longrightarrow> newline \<notin> set trm"
  shows "isMatch node (trim (toLowerCase trm)) \<longleftrightarrow>
         (\<exists>text \<in> {name node, summary node, description node}.
            \<exists>sp \<in> set (spans_of (HighlightText text trm as)). fst sp = matched)"
proof -
  have t: "trim (toLowerCase trm) = toLowerCase trm"
    unfolding trim_toLowerCase assms(1) ..
  have ne: "trim trm \<noteq> []" unfolding assms(1) by (rule assms(2))
  have key: "(\<exists>sp \<in> set (spans_of (HighlightText s trm as)). fst sp = matched) \<longleftrightarrow>
             includes_str (toLowerCase s) (toLowerCase trm)" for s
  proof (cases as)
    case as_p
    with assms(3) have "newline \<notin> set trm" by simp
    from matched_paragraphs[OF ne this, of s] show ?thesis
      unfolding as_p regex_search_includes .
  next
    case as_span
    from matched_inline[OF ne, of s] show ?thesis
      unfolding as_span regex_search_includes .
  qed
  have "isMatch node (toLowerCase trm) \<longleftrightarrow>
        (\<exists>text \<in> {name node, summary node, description node}.
           includes_str (toLowerCase text) (toLowerCase trm))"
    by (simp add: isMatch_def)
  then show ?thesis unfolding t key .
qed

lemma HighlightText_filter_consistency_example:
  "trim ''sched'' = ''sched'' \<and> ''sched'' \<noteq> [] \<and> newline \<notin> set ''sched'' \<and>
   (isMatch scenario_B (trim (toLowerCase ''sched'')) \<longleftrightarrow>
    (\<exists>text \<in> {name scenario_B, summary scenario_B, description scenario_B}.
       \<exists>sp \<in> set (spans_of (HighlightText text ''sched'' as_p)). fst sp = matched))"
proof -
  have h1: "trim ''sched'' = ''sched''" by code_simp
  have h2: "''sched'' \<noteq> []" by simp
  have h3: "newline \<notin> set ''sched''" by code_simp
  then have h3': "as_p = as_p \<longrightarrow> newline \<notin> set ''sched''" by simp
  show ?thesis
    by (intro conjI h1 h2 h3) (rule HighlightText_filter_consistency[OF h1 h2 h3'])
qed

text \<open>
  C3.  The claim fails on the code.  \<open>filterTree\<close> tests the texts against the trimmed
  term; \<open>HighlightText\<close> trims the term only to see whether it is blank and builds its
  regular expression from the term as it was typed.  With the term \<open>kernel\<close> followed by
  a space the node \<open>kernel\<close> of the scenario matches by itself in the filter, and in
  neither mode is a span of its name, its summary or its description marked.
\<close>

theorem highlight_misses_padded_term:
  "isMatch scenario_A (trim (toLowerCase ''kernel '')) \<and>
   \<not> (\<exists>text \<in> {name scenario_A, summary scenario_A, description scenario_A}.
         \<exists>sp \<in> set (spans_of (HighlightText text ''kernel '' as_span)). fst sp = matched) \<and>
   \<not> (\<exists>text \<in> {name scenario_A, summary scenario_A, description scenario_A}.
         \<exists>sp \<in> set (spans_of (HighlightText text ''kernel '' as_p)). fst sp = matched)"
  by code_simp

text \<open>
  For a blank term both sides are switched off: the test of the filter, which
  \<open>filterTree\<close> does not reach, would hold for every node, and nothing is marked.
\<close>

lemma highlight_blank_term:
  "isMatch scenario_A (trim (toLowerCase [])) \<and>
   \<not> (\<exists>text \<in> {name scenario_A, summary scenario_A, description scenario_A}.
         \<exists>sp \<in> set (spans_of (HighlightText text [] as_span)). fst sp = matched)"
  by code_simp

end
